theory Spec2Isabelle
  imports Main "HOL-Library.Sublist"
begin

section \<open>Python strings\<close>

text \<open>
  A Python \<open>str\<close> is a sequence of Unicode code points; \<open>len\<close> counts code points.
  The module uses U+200B and the box-drawing block, which do not fit an 8-bit character,
  so a string is modelled as the list of its code points.
\<close>

type_synonym pystr = "nat list"

definition str_of :: "string \<Rightarrow> pystr" where
  "str_of s = map of_char s"

text \<open>Exceptions raised by the built-ins the module calls. \<open>LookupError\<close> is the common
  base class of \<open>KeyError\<close> and \<open>IndexError\<close>. \<open>OutsideModel\<close> is not a Python
  exception: it marks a replacement field of \<open>str.format\<close> whose meaning (conversion,
  format specification, attribute or index access, numeric overflow) is not modelled.\<close>

datatype error = ValueError | LookupError | OutsideModel

subsection \<open>Slice and search indices\<close>

text \<open>CPython's \<open>ADJUST_INDICES\<close>: \<open>end\<close> is clamped to the length, negative indices
  count from the end and are clamped to 0; \<open>start\<close> is not clamped from above.\<close>

definition adjust_end :: "int \<Rightarrow> nat \<Rightarrow> int" where
  "adjust_end e n = (if e > int n then int n else if e < 0 then max 0 (e + int n) else e)"

definition adjust_start :: "int \<Rightarrow> nat \<Rightarrow> int" where
  "adjust_start b n = (if b < 0 then max 0 (b + int n) else b)"

text \<open>\<open>s[:e]\<close> and \<open>s[b:]\<close>.\<close>

definition slice_to :: "pystr \<Rightarrow> int \<Rightarrow> pystr" where
  "slice_to s e = take (nat (adjust_end e (length s))) s"

definition slice_from :: "pystr \<Rightarrow> int \<Rightarrow> pystr" where
  "slice_from s b = drop (nat (adjust_start b (length s))) s"

subsection \<open>\<open>str.count\<close>, \<open>str.rfind\<close>, \<open>str.replace\<close>, \<open>str.strip\<close>\<close>

text \<open>Number of non-overlapping occurrences, scanning from the left; the empty pattern
  occurs once between any two characters and at both ends.\<close>

fun count_occ :: "pystr \<Rightarrow> pystr \<Rightarrow> nat" where
  "count_occ sub [] = (if sub = [] then 1 else 0)"
| "count_occ sub (c # cs) =
     (if sub = [] then length (c # cs) + 1
      else if prefix sub (c # cs) then 1 + count_occ sub (drop (length sub - 1) cs)
      else count_occ sub cs)"

text \<open>\<open>s.count(sub, start, end)\<close>.\<close>

definition py_count :: "pystr \<Rightarrow> pystr \<Rightarrow> int \<Rightarrow> int \<Rightarrow> nat" where
  "py_count s sub start end =
     (let e = adjust_end end (length s); b = adjust_start start (length s)
      in if e - b < int (length sub) then 0
         else count_occ sub (take (nat (e - b)) (drop (nat b) s)))"

text \<open>\<open>s.rfind(sub, start, end)\<close>: the highest index \<open>i\<close> with \<open>start \<le> i\<close> and
  \<open>i + len(sub) \<le> end\<close> (after adjustment) at which \<open>sub\<close> occurs, or \<open>-1\<close>.\<close>

definition occurs_at :: "pystr \<Rightarrow> pystr \<Rightarrow> nat \<Rightarrow> bool" where
  "occurs_at s sub i = (take (length sub) (drop i s) = sub)"

definition rfind :: "pystr \<Rightarrow> pystr \<Rightarrow> int \<Rightarrow> int \<Rightarrow> int" where
  "rfind s sub start end =
     (let e = adjust_end end (length s); b = adjust_start start (length s);
          m = int (length sub)
      in if e - b < m then - 1
         else (case find (occurs_at s sub) (rev [nat b ..< nat (e - m) + 1]) of
                 None \<Rightarrow> - 1
               | Some i \<Rightarrow> int i))"

text \<open>\<open>s.replace(old, new)\<close>: every non-overlapping occurrence, scanning from the left;
  an empty \<open>old\<close> inserts \<open>new\<close> before every character and at the end.\<close>

fun replace :: "pystr \<Rightarrow> pystr \<Rightarrow> pystr \<Rightarrow> pystr" where
  "replace old new [] = (if old = [] then new else [])"
| "replace old new (c # cs) =
     (if old = [] then new @ c # replace old new cs
      else if prefix old (c # cs) then new @ replace old new (drop (length old - 1) cs)
      else c # replace old new cs)"

text \<open>The code points for which \<open>str.isspace\<close> holds; \<open>strip()\<close> removes them at both
  ends. U+200B is not among them.\<close>

definition isspace :: "nat \<Rightarrow> bool" where
  "isspace c = ((9 \<le> c \<and> c \<le> 13) \<or> (28 \<le> c \<and> c \<le> 32) \<or> c = 133 \<or> c = 160
     \<or> c = 5760 \<or> (8192 \<le> c \<and> c \<le> 8202) \<or> c = 8232 \<or> c = 8233 \<or> c = 8239
     \<or> c = 8287 \<or> c = 12288)"

definition strip :: "pystr \<Rightarrow> pystr" where
  "strip s = rev (dropWhile isspace (rev (dropWhile isspace s)))"

text \<open>\<open>max\<close> of a sequence of integers raises \<open>ValueError\<close> on the empty sequence.\<close>

fun py_max :: "int list \<Rightarrow> error + int" where
  "py_max [] = Inl ValueError"
| "py_max (x # xs) = Inr (fold max xs x)"

section \<open>\<open>escape\<close>\<close>

definition zwsp :: nat where
  "zwsp = 8203"

definition at_everyone :: pystr where
  "at_everyone = str_of ''@everyone''"

definition at_here :: pystr where
  "at_here = str_of ''@here''"

definition everyone_esc :: pystr where
  "everyone_esc = 64 # zwsp # str_of ''everyone''"

definition here_esc :: pystr where
  "here_esc = 64 # zwsp # str_of ''here''"

text \<open>\<open>discord.utils.escape_markdown\<close> is an external primitive; it is the parameter
  \<open>escape_markdown\<close>.\<close>

definition escape :: "(pystr \<Rightarrow> pystr) \<Rightarrow> pystr \<Rightarrow> bool \<Rightarrow> bool \<Rightarrow> pystr" where
  "escape escape_markdown text mass_mentions formatting =
     (let text1 = (if mass_mentions
                   then replace at_here here_esc (replace at_everyone everyone_esc text)
                   else text)
      in if formatting then escape_markdown text1 else text1)"

text \<open>The specification's reading of mass-mention mode, in one pass: wherever
  \<open>@everyone\<close> or \<open>@here\<close> starts, U+200B is put between the \<open>@\<close> and the word.\<close>

fun escape_spec :: "pystr \<Rightarrow> pystr" where
  "escape_spec [] = []"
| "escape_spec (c # cs) =
     (if c = 64 \<and> (prefix (str_of ''everyone'') cs \<or> prefix (str_of ''here'') cs)
      then c # zwsp # escape_spec cs
      else c # escape_spec cs)"

section \<open>\<open>pagify\<close>\<close>

text \<open>The working limit of one iteration (lines 262 to 266).\<close>

definition this_page_len :: "pystr \<Rightarrow> bool \<Rightarrow> int \<Rightarrow> int" where
  "this_page_len in_text escape_mass_mentions page_length =
     (if escape_mass_mentions
      then page_length - (int (py_count in_text at_here 0 page_length)
                          + int (py_count in_text at_everyone 0 page_length))
      else page_length)"

text \<open>The break point of one iteration (lines 267 to 272).\<close>

definition closest_delim :: "pystr list \<Rightarrow> bool \<Rightarrow> pystr \<Rightarrow> int \<Rightarrow> error + int" where
  "closest_delim delims priority in_text limit =
     (let cds = map (\<lambda>d. rfind in_text d 1 limit) delims
      in case (if priority
               then Inr (case find (\<lambda>x. x > 0) cds of Some x \<Rightarrow> x | None \<Rightarrow> - 1)
               else py_max cds) of
           Inl e \<Rightarrow> Inl e
         | Inr cd \<Rightarrow> Inr (if cd \<noteq> - 1 then cd else limit))"

text \<open>The specification's reading of the break point. The occurrences of a delimiter
  that lie between index 1 and the working limit, in ascending order; and the break
  point: with \<open>priority\<close>, the last such occurrence of the first delimiter that has one;
  without, the greatest such occurrence of any delimiter; the working limit when there
  is none.\<close>

definition occurrences :: "pystr \<Rightarrow> int \<Rightarrow> pystr \<Rightarrow> nat list" where
  "occurrences s limit d =
     filter (\<lambda>i. int i + int (length d) \<le> limit \<and> occurs_at s d i) [1 ..< nat limit + 1]"

definition break_spec :: "pystr list \<Rightarrow> bool \<Rightarrow> pystr \<Rightarrow> int \<Rightarrow> int" where
  "break_spec delims priority s limit =
     (if priority
      then (case find (\<lambda>d. occurrences s limit d \<noteq> []) delims of
              Some d \<Rightarrow> int (Max (set (occurrences s limit d)))
            | None \<Rightarrow> limit)
      else (if concat (map (occurrences s limit) delims) = [] then limit
            else int (Max (set (concat (map (occurrences s limit) delims))))))"

text \<open>One pass through the body of the \<open>while\<close> loop: the pages it yields (none or one)
  and the text that remains.\<close>

definition pagify_iter ::
  "(pystr \<Rightarrow> pystr) \<Rightarrow> pystr list \<Rightarrow> bool \<Rightarrow> bool \<Rightarrow> int \<Rightarrow> pystr
     \<Rightarrow> error + (pystr list \<times> pystr)" where
  "pagify_iter md delims priority escape_mass_mentions page_length in_text =
     (case closest_delim delims priority in_text
             (this_page_len in_text escape_mass_mentions page_length) of
        Inl e \<Rightarrow> Inl e
      | Inr cd \<Rightarrow>
          (let to_send = (if escape_mass_mentions
                          then escape md (slice_to in_text cd) True False
                          else slice_to in_text cd)
           in Inr (if length (strip to_send) > 0 then [to_send] else [],
                   slice_from in_text cd)))"

text \<open>The generator, enumerated to its end: \<open>pages\<close> collects what has been yielded.
  \<open>None\<close> is a loop that never ends, \<open>Some (Inl e)\<close> an exception raised while
  enumerating, \<open>Some (Inr pages)\<close> the pages of an exhausted generator.\<close>

partial_function (option) pagify_loop ::
  "(pystr \<Rightarrow> pystr) \<Rightarrow> pystr list \<Rightarrow> bool \<Rightarrow> bool \<Rightarrow> int \<Rightarrow> pystr list \<Rightarrow> pystr
     \<Rightarrow> (error + pystr list) option" where
  "pagify_loop md delims priority escape_mass_mentions page_length pages in_text =
     (if int (length in_text) > page_length
      then (case pagify_iter md delims priority escape_mass_mentions page_length in_text of
              Inl e \<Rightarrow> Some (Inl e)
            | Inr (out, in_text') \<Rightarrow>
                pagify_loop md delims priority escape_mass_mentions page_length
                  (pages @ out) in_text')
      else Some (Inr (pages @
                  (if length (strip in_text) > 0
                   then [if escape_mass_mentions then escape md in_text True False
                         else in_text]
                   else []))))"

declare pagify_loop.simps [code]

definition pagify ::
  "(pystr \<Rightarrow> pystr) \<Rightarrow> pystr \<Rightarrow> pystr list \<Rightarrow> bool \<Rightarrow> bool \<Rightarrow> int \<Rightarrow> int
     \<Rightarrow> (error + pystr list) option" where
  "pagify md text delims priority escape_mass_mentions shorten_by page_length =
     pagify_loop md delims priority escape_mass_mentions (page_length - shorten_by) [] text"

text \<open>The slices the loop cuts from a text, in order, with what remains after the loop
  as the last one: \<open>segs\<close> is that list when every element but the last is
  \<open>in_text[:closest_delim]\<close> of a pass whose \<open>in_text\<close> is longer than the budget, the next
  pass starts from \<open>in_text[closest_delim:]\<close>, and the last element is the text that is no
  longer than the budget.\<close>

fun loop_slices :: "pystr list \<Rightarrow> bool \<Rightarrow> bool \<Rightarrow> int \<Rightarrow> pystr \<Rightarrow> pystr list \<Rightarrow> bool" where
  "loop_slices delims priority escape_mass_mentions page_length in_text [] = False"
| "loop_slices delims priority escape_mass_mentions page_length in_text [s] =
     (int (length in_text) \<le> page_length \<and> s = in_text)"
| "loop_slices delims priority escape_mass_mentions page_length in_text (s # s' # ss) =
     (int (length in_text) > page_length \<and>
      (case closest_delim delims priority in_text
              (this_page_len in_text escape_mass_mentions page_length) of
         Inl e \<Rightarrow> False
       | Inr cd \<Rightarrow> s = slice_to in_text cd
           \<and> loop_slices delims priority escape_mass_mentions page_length
                 (slice_from in_text cd) (s' # ss)))"

section \<open>\<open>str.format\<close> with keyword arguments only\<close>

fun prepend :: "pystr \<Rightarrow> error + pystr \<Rightarrow> error + pystr" where
  "prepend xs (Inl e) = Inl e"
| "prepend xs (Inr ys) = Inr (xs @ ys)"

text \<open>The characters \<open>}\<close>, \<open>{\<close>, \<open>[\<close>, \<open>:\<close>, \<open>!\<close> and \<open>.\<close>: a field name free of them is a
  plain argument name.\<close>

definition field_stop :: "nat \<Rightarrow> bool" where
  "field_stop c = (c = 125 \<or> c = 123 \<or> c = 91 \<or> c = 58 \<or> c = 33 \<or> c = 46)"

text \<open>A name that CPython may read as a positional index (decimal digits, of any
  script): such a field raises \<open>IndexError\<close>, or \<open>ValueError\<close> when the index is too
  large, and is left outside the model.\<close>

definition numeric_like :: "pystr \<Rightarrow> bool" where
  "numeric_like name = (name \<noteq> [] \<and> list_all (\<lambda>c. (48 \<le> c \<and> c \<le> 57) \<or> 128 \<le> c) name)"

text \<open>\<open>s.format(**kwargs)\<close>, left to right: \<open>{{\<close> and \<open>}}\<close> are literal braces, a single
  \<open>}\<close> or an unclosed \<open>{\<close> raises \<open>ValueError\<close>, \<open>{name}\<close> is replaced by the value of
  \<open>name\<close> (a string here), an unknown or empty name raises \<open>KeyError\<close> or \<open>IndexError\<close>.\<close>

function format :: "(pystr \<rightharpoonup> pystr) \<Rightarrow> pystr \<Rightarrow> error + pystr" where
  "format kwargs [] = Inr []"
| "format kwargs (c # cs) =
     (if c = 123 then
        (case cs of
           [] \<Rightarrow> Inl ValueError
         | d # ds \<Rightarrow>
             if d = 123 then prepend [123] (format kwargs ds)
             else (case dropWhile (\<lambda>x. \<not> field_stop x) cs of
                     [] \<Rightarrow> Inl ValueError
                   | t # ts \<Rightarrow>
                       if t = 125 then
                         (let name = takeWhile (\<lambda>x. \<not> field_stop x) cs
                          in if name = [] then Inl LookupError
                             else if numeric_like name then Inl OutsideModel
                             else (case kwargs name of
                                     None \<Rightarrow> Inl LookupError
                                   | Some v \<Rightarrow> prepend v (format kwargs ts)))
                       else if t = 123 then Inl ValueError
                       else Inl OutsideModel))
      else if c = 125 then
        (case cs of
           [] \<Rightarrow> Inl ValueError
         | d # ds \<Rightarrow> if d = 125 then prepend [125] (format kwargs ds) else Inl ValueError)
      else prepend [c] (format kwargs cs))"
  by pat_completeness auto
termination
proof (relation "measure (\<lambda>(kwargs, s). length s)", goal_cases)
  case 1
  show ?case by simp
next
  case (2 kwargs c cs d ds)
  then show ?case by simp
next
  case (3 kwargs c cs d ds t ts name v)
  have "length (dropWhile (\<lambda>x. \<not> field_stop x) cs) \<le> length cs"
    by (rule length_dropWhile_le)
  with 3 show ?case by simp
next
  case (4 kwargs c cs d ds)
  then show ?case by simp
next
  case (5 kwargs c cs)
  then show ?case by simp
qed

section \<open>\<open>bordered\<close>\<close>

text \<open>The dictionary \<open>borders\<close> (lines 168 to 175).\<close>

definition borders :: "bool \<Rightarrow> (pystr \<rightharpoonup> pystr)" where
  "borders ascii_border = map_of
     [(str_of ''TL'', [if ascii_border then 43 else 9484]),
      (str_of ''TR'', [if ascii_border then 43 else 9488]),
      (str_of ''BL'', [if ascii_border then 43 else 9492]),
      (str_of ''BR'', [if ascii_border then 43 else 9496]),
      (str_of ''HZ'', [if ascii_border then 45 else 9472]),
      (str_of ''VT'', [if ascii_border then 124 else 9474])]"

definition sep :: pystr where
  "sep = replicate 4 32"

text \<open>\<open>sep.join(xs)\<close>.\<close>

fun py_join :: "pystr \<Rightarrow> pystr list \<Rightarrow> pystr" where
  "py_join s [] = []"
| "py_join s [x] = x"
| "py_join s (x # y # ys) = x @ s @ py_join s (y # ys)"

text \<open>Line 178: the width of a column is the length of its longest line plus 9; \<open>max\<close>
  raises on a column without lines.\<close>

fun widths :: "pystr list list \<Rightarrow> error + nat list" where
  "widths [] = Inr []"
| "widths (column # columns) =
     (case py_max (map (\<lambda>row. int (length row)) column) of
        Inl e \<Rightarrow> Inl e
      | Inr m \<Rightarrow> (case widths columns of
                   Inl e \<Rightarrow> Inl e
                 | Inr ws \<Rightarrow> Inr ((nat m + 9) # ws)))"

text \<open>\<open>itertools.zip_longest(*columns)\<close>: as many tuples as the longest column has lines,
  \<open>None\<close> where a column has run out.\<close>

definition zip_longest :: "'a list list \<Rightarrow> 'a option list list" where
  "zip_longest columns =
     map (\<lambda>r. map (\<lambda>column. if r < length column then Some (column ! r) else None) columns)
       [0 ..< fold max (map length columns) 0]"

definition top_border :: "nat \<Rightarrow> pystr" where
  "top_border width = str_of ''{TL}'' @ concat (replicate width (str_of ''{HZ}'')) @ str_of ''{TR}''"

definition bottom_border :: "nat \<Rightarrow> pystr" where
  "bottom_border width = str_of ''{BL}'' @ concat (replicate width (str_of ''{HZ}'')) @ str_of ''{BR}''"

text \<open>The body of the inner loop (lines 187 to 200) for the cell \<open>colidx\<close> of a tuple; both
  indices are in range, since \<open>widths\<close>, \<open>colsdone\<close> and every tuple have one entry per
  column.\<close>

fun cell_step :: "nat list \<Rightarrow> pystr list \<times> bool list \<Rightarrow> nat \<times> pystr option
    \<Rightarrow> pystr list \<times> bool list" where
  "cell_step ws (row, colsdone) (colidx, None) =
     (let width = ws ! colidx; done = colsdone ! colidx
      in if \<not> done then (row @ [bottom_border width], colsdone[colidx := True])
         else (row @ [replicate (width + 2) 32], colsdone))"
| "cell_step ws (row, colsdone) (colidx, Some column) =
     (let width = ws ! colidx
      in (row @ [str_of ''{VT}'' @ column @ replicate (width - length column) 32
                 @ str_of ''{VT}''], colsdone))"

text \<open>The body of the outer loop (lines 185 to 202): the cells of one row and the updated
  \<open>colsdone\<close>.\<close>

definition row_step :: "nat list \<Rightarrow> pystr list list \<times> bool list \<Rightarrow> pystr option list
    \<Rightarrow> pystr list list \<times> bool list" where
  "row_step ws st line =
     (case st of (rows, colsdone) \<Rightarrow>
        (case foldl (cell_step ws) ([], colsdone) (enumerate 0 line) of
           (row, colsdone') \<Rightarrow> (rows @ [row], colsdone')))"

text \<open>Every row of the block as the list of its cells, before the cells are joined by
  \<open>sep\<close>: the top borders, the rows of the loop, and \<open>final_row\<close>.\<close>

definition bordered_rows :: "pystr list list \<Rightarrow> nat list \<Rightarrow> pystr list list" where
  "bordered_rows columns ws =
     (case foldl (row_step ws) ([map top_border ws], replicate (length columns) False)
             (zip_longest columns) of
        (rows, colsdone) \<Rightarrow>
          rows @ [map (\<lambda>(width, done). if \<not> done then bottom_border width
                                       else replicate (width + 2) 32) (zip ws colsdone)])"

definition bordered :: "pystr list list \<Rightarrow> bool \<Rightarrow> error + pystr" where
  "bordered columns ascii_border =
     (case widths columns of
        Inl e \<Rightarrow> Inl e
      | Inr ws \<Rightarrow> format (borders ascii_border)
                   (py_join [10] (map (py_join sep) (bordered_rows columns ws))))"

section \<open>Evaluation of the definitions\<close>

lemmas py_defs = str_of_def adjust_end_def adjust_start_def slice_to_def slice_from_def
  py_count_def rfind_def occurs_at_def isspace_def strip_def zwsp_def at_everyone_def
  at_here_def everyone_esc_def here_esc_def escape_def this_page_len_def closest_delim_def
  pagify_iter_def

lemma replicate_numeral: "replicate (numeral k) x = x # replicate (pred_numeral k) x"
  by (simp add: numeral_eq_Suc)

lemmas bordered_defs = replicate_numeral bordered_def bordered_rows_def row_step_def zip_longest_def
  top_border_def bottom_border_def sep_def borders_def str_of_def field_stop_def
  numeric_like_def enumerate_eq_zip upt_rec

section \<open>Mass-mention escaping\<close>

lemma replace_prefix:
  "old \<noteq> [] \<Longrightarrow> replace old new (old @ rest) = new @ replace old new rest"
  by (cases old) simp_all

lemma replace_not_prefix:
  "old \<noteq> [] \<Longrightarrow> \<not> prefix old (c # cs) \<Longrightarrow> replace old new (c # cs) = c # replace old new cs"
  by simp

lemma at_nonempty: "at_everyone \<noteq> []" "at_here \<noteq> []"
  by (simp_all add: at_everyone_def at_here_def str_of_def)

lemma prefix_replace_everyone:
  "64 \<notin> set p \<Longrightarrow> prefix p (replace at_everyone everyone_esc cs) = prefix p cs"
proof (induction p arbitrary: cs)
  case Nil
  show ?case by simp
next
  case (Cons a p)
  show ?case
  proof (cases cs)
    case Nil
    then show ?thesis by (simp add: at_everyone_def str_of_def)
  next
    case (Cons d ds)
    show ?thesis
    proof (cases "prefix at_everyone (d # ds)")
      case True
      then have "d = 64" by (simp add: at_everyone_def str_of_def)
      from True obtain rest where "d # ds = at_everyone @ rest" by (auto simp: prefix_def)
      then have "replace at_everyone everyone_esc (d # ds)
          = everyone_esc @ replace at_everyone everyone_esc rest"
        by (simp add: replace_prefix at_nonempty)
      with \<open>d = 64\<close> Cons Cons.prems show ?thesis
        by (simp add: everyone_esc_def)
    next
      case False
      then have "replace at_everyone everyone_esc (d # ds)
          = d # replace at_everyone everyone_esc ds"
        by (rule replace_not_prefix [OF at_nonempty(1)])
      with Cons Cons.prems Cons.IH [of ds] show ?thesis
        by simp
    qed
  qed
qed

lemma replace_here_everyone_esc:
  "replace at_here here_esc (everyone_esc @ u) = everyone_esc @ replace at_here here_esc u"
  by (simp add: at_here_def everyone_esc_def str_of_def zwsp_def)

lemma replace_everyone_here:
  "replace at_everyone everyone_esc (str_of ''here'' @ u) = str_of ''here'' @ replace at_everyone everyone_esc u"
  by (simp add: at_everyone_def str_of_def)

lemma escape_spec_everyone:
  "escape_spec (at_everyone @ u) = everyone_esc @ escape_spec u"
  by (simp add: at_everyone_def everyone_esc_def str_of_def)

lemma escape_spec_here:
  "escape_spec (at_here @ u) = here_esc @ escape_spec u"
  by (simp add: at_here_def here_esc_def str_of_def)

lemma replace_twice_spec:
  "replace at_here here_esc (replace at_everyone everyone_esc s) = escape_spec s"
proof (induction "length s" arbitrary: s rule: less_induct)
  case less
  show ?case
  proof (cases s)
    case Nil
    then show ?thesis by (simp add: at_here_def at_everyone_def str_of_def)
  next
    case (Cons c cs)
    show ?thesis
    proof (cases "prefix at_everyone s")
      case True
      then obtain rest where s: "s = at_everyone @ rest" by (auto simp: prefix_def)
      have r: "replace at_everyone everyone_esc s = everyone_esc @ replace at_everyone everyone_esc rest"
        unfolding s by (simp add: replace_prefix at_nonempty)
      have "length rest < length s" unfolding s by (simp add: at_everyone_def str_of_def)
      from less [OF this] show ?thesis
        unfolding r replace_here_everyone_esc unfolding s escape_spec_everyone by simp
    next
      case notE: False
      let ?u = "replace at_everyone everyone_esc cs"
      have r: "replace at_everyone everyone_esc s = c # ?u"
        using notE unfolding Cons by (rule replace_not_prefix [OF at_nonempty(1)])
      have ih: "replace at_here here_esc ?u = escape_spec cs"
        using less [of cs] Cons by simp
      show ?thesis
      proof (cases "c = 64 \<and> prefix (str_of ''here'') cs")
        case True
        then obtain rest where cs: "cs = str_of ''here'' @ rest" by (auto simp: prefix_def)
        have s: "s = at_here @ rest" using True Cons cs by (simp add: at_here_def str_of_def)
        have u: "c # ?u = at_here @ replace at_everyone everyone_esc rest"
          unfolding cs replace_everyone_here using True by (simp add: at_here_def str_of_def)
        have "length rest < length s" unfolding s by (simp add: at_here_def str_of_def)
        from less [OF this] have ih': "replace at_here here_esc (replace at_everyone everyone_esc rest) = escape_spec rest" .
        have "replace at_here here_esc (at_here @ replace at_everyone everyone_esc rest)
            = here_esc @ replace at_here here_esc (replace at_everyone everyone_esc rest)"
          by (simp add: replace_prefix at_nonempty)
        then show ?thesis unfolding r u unfolding s escape_spec_here ih' by simp
      next
        case False
        have "\<not> prefix at_here (c # ?u)"
        proof
          assume "prefix at_here (c # ?u)"
          then have "c = 64" and "prefix (str_of ''here'') ?u"
            by (simp_all add: at_here_def str_of_def)
          moreover have "prefix (str_of ''here'') ?u = prefix (str_of ''here'') cs"
            by (rule prefix_replace_everyone) (simp_all add: str_of_def)
          ultimately show False using False by simp
        qed
        then have a: "replace at_here here_esc (c # ?u) = c # replace at_here here_esc ?u"
          by (rule replace_not_prefix [OF at_nonempty(2)])
        have "\<not> (c = 64 \<and> prefix (str_of ''everyone'') cs)"
          using notE Cons by (simp add: at_everyone_def str_of_def)
        with False have b: "escape_spec s = c # escape_spec cs"
          using Cons by auto
        show ?thesis unfolding r a b ih ..
      qed
    qed
  qed
qed

lemma escape_spec_id:
  "\<not> sublist at_everyone s \<Longrightarrow> \<not> sublist at_here s \<Longrightarrow> escape_spec s = s"
proof (induction s)
  case Nil
  show ?case by simp
next
  case (Cons c cs)
  from Cons.prems have 1: "\<not> prefix at_everyone (c # cs)" "\<not> prefix at_here (c # cs)"
    and 2: "\<not> sublist at_everyone cs" "\<not> sublist at_here cs"
    by (auto simp: sublist_Cons_right)
  from 1 have "\<not> (c = 64 \<and> (prefix (str_of ''everyone'') cs \<or> prefix (str_of ''here'') cs))"
    by (auto simp: at_everyone_def at_here_def str_of_def)
  with Cons.IH [OF 2] show ?case by simp
qed

lemma escape_is_spec: "escape md t True False = escape_spec t"
  using replace_twice_spec [of t] by (simp add: escape_def)

text \<open>
  C9. With \<open>mass_mentions=True\<close>, \<open>escape\<close> puts U+200B between the \<open>@\<close> and the word
  of every \<open>@everyone\<close> and \<open>@here\<close> (it computes \<open>escape_spec\<close>); in particular
  \<open>escape("@everyone hi", mass_mentions=True)\<close> is \<open>"@\u200beveryone hi"\<close>; and a text
  that contains neither substring is returned unchanged.
\<close>

theorem escape_mass_mentions:
  "escape md (str_of ''@everyone hi'') True False = 64 # 8203 # str_of ''everyone hi''
   \<and> escape md text True False = escape_spec text
   \<and> (\<not> sublist at_everyone text \<and> \<not> sublist at_here text
        \<longrightarrow> escape md text True False = text)"
proof -
  have "escape_spec (str_of ''@everyone hi'') = 64 # 8203 # str_of ''everyone hi''"
    by (simp add: str_of_def zwsp_def)
  with escape_is_spec escape_spec_id show ?thesis by simp
qed

theorem escape_mass_mentions_witness:
  "\<not> sublist at_everyone (str_of ''hi @there'') \<and> \<not> sublist at_here (str_of ''hi @there'')
   \<and> escape id (str_of ''hi @there'') True False = str_of ''hi @there''"
proof -
  have h: "\<not> sublist at_everyone (str_of ''hi @there'') \<and> \<not> sublist at_here (str_of ''hi @there'')"
    by (simp add: at_everyone_def at_here_def str_of_def sublist_Cons_right)
  with escape_mass_mentions [of id "str_of ''hi @there''"] show ?thesis by blast
qed

section \<open>Texts within the budget\<close>

lemma strip_Nil_iff: "strip s = [] \<longleftrightarrow> list_all isspace s"
proof
  assume "strip s = []"
  then have a: "\<forall>x\<in>set (dropWhile isspace s). isspace x"
    by (simp add: strip_def dropWhile_eq_Nil_conv)
  have "dropWhile isspace s = []"
  proof (rule ccontr)
    assume n: "dropWhile isspace s \<noteq> []"
    then have "\<not> isspace (hd (dropWhile isspace s))" by (rule hd_dropWhile)
    moreover from n have "hd (dropWhile isspace s) \<in> set (dropWhile isspace s)" by simp
    ultimately show False using a by blast
  qed
  then show "list_all isspace s" by (simp add: dropWhile_eq_Nil_conv list_all_iff)
next
  assume "list_all isspace s"
  then show "strip s = []" by (auto simp: strip_def list_all_iff dest: set_dropWhileD)

qed

lemma pagify_loop_short:
  "int (length t) \<le> L \<Longrightarrow>
   pagify_loop md delims priority esc L pages t =
     Some (Inr (pages @ (if list_all isspace t then []
                         else [if esc then escape md t True False else t])))"
  by (subst pagify_loop.simps) (simp add: strip_Nil_iff)

text \<open>
  C8. A text no longer than \<open>page_length - shorten_by\<close> never enters the loop: if it is
  empty or all whitespace, \<open>pagify\<close> yields no page; otherwise it yields exactly one page,
  the text itself, mass-mention-escaped when \<open>escape_mass_mentions\<close> is set. This holds
  for every choice of delimiters and of \<open>priority\<close>.
\<close>

theorem pagify_short_text:
  "int (length text) \<le> page_length - shorten_by \<Longrightarrow>
   pagify md text delims priority escape_mass_mentions shorten_by page_length =
     Some (Inr (if list_all isspace text then []
                else [if escape_mass_mentions then escape md text True False else text]))"
  by (simp add: pagify_def pagify_loop_short)

theorem pagify_short_text_witness:
  "int (length (str_of ''@here hi'')) \<le> 2000 - 8 \<and>
   pagify id (str_of ''@here hi'') [[10]] False True 8 2000 =
     Some (Inr [64 # 8203 # str_of ''here hi''])"
proof -
  have h: "int (length (str_of ''@here hi'')) \<le> 2000 - 8" by (simp add: str_of_def)
  have "escape id (str_of ''@here hi'') True False = 64 # 8203 # str_of ''here hi''"
    by (simp add: escape_is_spec str_of_def zwsp_def)
  moreover have "\<not> list_all isspace (str_of ''@here hi'')" by (simp add: str_of_def isspace_def)
  ultimately show ?thesis
    using pagify_short_text [OF h, of id "[[10]]" False True] h by simp
qed

lemma pagify_loop_step:
  "L < int (length t) \<Longrightarrow> pagify_iter md delims priority esc L t = Inr (out, rest) \<Longrightarrow>
   pagify_loop md delims priority esc L pages t =
     pagify_loop md delims priority esc L (pages @ out) rest"
  by (subst pagify_loop.simps) simp

section \<open>Progress of the loop\<close>

lemma count_occ_bound: "sub \<noteq> [] \<Longrightarrow> length sub * count_occ sub s \<le> length s"
proof (induction sub s rule: count_occ.induct)
  case (1 sub)
  then show ?case by simp
next
  case (2 sub c cs)
  show ?case
  proof (cases "prefix sub (c # cs)")
    case True
    then have l: "length sub \<le> Suc (length cs)" by (auto dest: prefix_length_le)
    from 2(1) [OF 2(3) True] 2(3)
    have "length sub * count_occ sub (drop (length sub - 1) cs) \<le> length cs - (length sub - 1)"
      by simp
    moreover have "count_occ sub (c # cs) = 1 + count_occ sub (drop (length sub - 1) cs)"
      using True 2(3) by simp
    ultimately show ?thesis using l 2(3) by (cases sub) (simp_all add: algebra_simps)
  next
    case False
    with 2(2) [OF 2(3) False] 2(3) show ?thesis by simp
  qed
qed

lemma py_count_bound:
  assumes "sub \<noteq> []" "0 \<le> L"
  shows "int (length sub) * int (py_count s sub 0 L) \<le> L"
proof -
  let ?e = "adjust_end L (length s)"
  have e: "0 \<le> ?e" "?e \<le> L" using assms(2) by (simp_all add: adjust_end_def)
  have "length sub * count_occ sub (take (nat ?e) s) \<le> length (take (nat ?e) s)"
    by (rule count_occ_bound [OF assms(1)])
  also have "\<dots> \<le> nat ?e" by simp
  finally have "int (length sub * count_occ sub (take (nat ?e) s)) \<le> ?e"
    using e by linarith
  then show ?thesis using e
    by (simp add: py_count_def adjust_start_def Let_def)
qed

lemma this_page_len_range:
  assumes "1 \<le> L"
  shows "1 \<le> this_page_len t esc L \<and> this_page_len t esc L \<le> L"
proof -
  have "int (length at_here) * int (py_count t at_here 0 L) \<le> L"
    by (rule py_count_bound) (use assms in \<open>simp_all add: at_nonempty\<close>)
  then have h: "5 * int (py_count t at_here 0 L) \<le> L" by (simp add: at_here_def str_of_def)
  have "int (length at_everyone) * int (py_count t at_everyone 0 L) \<le> L"
    by (rule py_count_bound) (use assms in \<open>simp_all add: at_nonempty\<close>)
  then have e: "9 * int (py_count t at_everyone 0 L) \<le> L" by (simp add: at_everyone_def str_of_def)
  from h e assms show ?thesis by (simp add: this_page_len_def)
qed

lemma find_SomeD: "find P xs = Some x \<Longrightarrow> P x \<and> x \<in> set xs"
  by (induction xs) (auto split: if_splits)

lemma rfind_range:
  "rfind s sub b e = - 1 \<or>
   (adjust_start b (length s) \<le> rfind s sub b e
    \<and> rfind s sub b e + int (length sub) \<le> adjust_end e (length s)
    \<and> occurs_at s sub (nat (rfind s sub b e)))"
proof -
  let ?e = "adjust_end e (length s)" and ?b = "adjust_start b (length s)"
  let ?m = "int (length sub)"
  have b0: "0 \<le> ?b" by (simp add: adjust_start_def)
  show ?thesis
  proof (cases "?e - ?b < ?m")
    case True
    then show ?thesis by (simp add: rfind_def Let_def)
  next
    case False
    show ?thesis
    proof (cases "find (occurs_at s sub) (rev [nat ?b ..< nat (?e - ?m) + 1])")
      case None
      with False show ?thesis by (simp add: rfind_def Let_def)
    next
      case (Some i)
      from find_SomeD [OF Some] have "occurs_at s sub i" "nat ?b \<le> i" "i \<le> nat (?e - ?m)"
        by auto
      moreover have "rfind s sub b e = int i" using False Some by (simp add: rfind_def Let_def)
      ultimately show ?thesis using b0 False by auto
    qed
  qed
qed

lemma fold_max_in: "fold max xs (x::int) \<in> set (x # xs)"
proof (induction xs arbitrary: x)
  case Nil
  show ?case by simp
next
  case (Cons y ys)
  from Cons [of "max x y"] show ?case by (auto simp: max_def split: if_splits)
qed

lemma closest_delim_range:
  assumes "1 \<le> limit" "limit \<le> int (length s)" "delims \<noteq> [] \<or> priority"
  shows "\<exists>cd. closest_delim delims priority s limit = Inr cd \<and> 1 \<le> cd \<and> cd \<le> limit"
proof -
  let ?cds = "map (\<lambda>d. rfind s d 1 limit) delims"
  have adj: "adjust_start 1 (length s) = 1" "adjust_end limit (length s) = limit"
    using assms(1,2) by (simp_all add: adjust_start_def adjust_end_def)
  have el: "x = - 1 \<or> (1 \<le> x \<and> x \<le> limit)" if "x \<in> set ?cds" for x
  proof -
    from that obtain d where "x = rfind s d 1 limit" by auto
    with rfind_range [of s d 1 limit] adj show ?thesis by auto
  qed
  show ?thesis
  proof (cases priority)
    case True
    show ?thesis
    proof (cases "find (\<lambda>x. x > 0) ?cds")
      case None
      with True assms(1) show ?thesis by (simp add: closest_delim_def)
    next
      case (Some x)
      from find_SomeD [OF Some] have "0 < x" "x \<in> set ?cds" by simp_all
      with el [of x] have "1 \<le> x \<and> x \<le> limit" by linarith
      with True Some show ?thesis by (simp add: closest_delim_def)
    qed
  next
    case False
    with assms(3) obtain d ds where d: "delims = d # ds" by (cases delims) auto
    let ?m = "fold max (map (\<lambda>d. rfind s d 1 limit) ds) (rfind s d 1 limit)"
    have "?m \<in> set ?cds" using fold_max_in [of "map (\<lambda>d. rfind s d 1 limit) ds" "rfind s d 1 limit"]
      unfolding d by simp
    from el [OF this] assms(1) False show ?thesis
      unfolding d by (auto simp: closest_delim_def)
  qed
qed

lemma all_space_escape_spec: "list_all isspace (escape_spec s) = list_all isspace s"
  by (induction s) (auto simp: isspace_def)

lemma pagify_iter_progress:
  assumes "1 \<le> L" "L < int (length t)" "delims \<noteq> [] \<or> priority"
  shows "\<exists>cd. 1 \<le> cd \<and> cd \<le> L \<and>
     pagify_iter md delims priority esc L t =
       Inr (if list_all isspace (take (nat cd) t) then []
            else [if esc then escape md (take (nat cd) t) True False else take (nat cd) t],
            drop (nat cd) t)"
proof -
  let ?l = "this_page_len t esc L"
  from this_page_len_range [OF assms(1)] have l: "1 \<le> ?l" "?l \<le> L" by simp_all
  with assms(2) have "?l \<le> int (length t)" by simp
  from closest_delim_range [OF l(1) this assms(3)]
  obtain cd where cd: "closest_delim delims priority t ?l = Inr cd" "1 \<le> cd" "cd \<le> ?l"
    by blast
  with l assms(2) have r: "1 \<le> cd" "cd \<le> L" "cd < int (length t)" by simp_all
  then have sl: "slice_to t cd = take (nat cd) t" "slice_from t cd = drop (nat cd) t"
    by (simp_all add: slice_to_def slice_from_def adjust_end_def adjust_start_def)
  have "pagify_iter md delims priority esc L t =
       Inr (if list_all isspace (take (nat cd) t) then []
            else [if esc then escape md (take (nat cd) t) True False else take (nat cd) t],
            drop (nat cd) t)"
    by (simp add: pagify_iter_def cd(1) sl strip_Nil_iff escape_is_spec all_space_escape_spec)
  with r show ?thesis by blast
qed

lemma pagify_loop_segments:
  assumes "1 \<le> L" "delims \<noteq> [] \<or> priority"
  shows "\<exists>segs. concat segs = t \<and>
     pagify_loop md delims priority esc L pages t =
       Some (Inr (pages @ map (\<lambda>s. if esc then escape md s True False else s)
                             (filter (\<lambda>s. \<not> list_all isspace s) segs)))"
proof (induction "length t" arbitrary: t pages rule: less_induct)
  case less
  show ?case
  proof (cases "L < int (length t)")
    case False
    then have "int (length t) \<le> L" by simp
    from pagify_loop_short [OF this, of md delims priority esc pages]
    have "concat [t] = t \<and>
      pagify_loop md delims priority esc L pages t =
       Some (Inr (pages @ map (\<lambda>s. if esc then escape md s True False else s)
                             (filter (\<lambda>s. \<not> list_all isspace s) [t])))"
      by simp
    then show ?thesis by blast
  next
    case True
    from pagify_iter_progress [OF assms(1) True assms(2), of md esc]
    obtain cd where cd: "1 \<le> cd" "cd \<le> L"
      and it: "pagify_iter md delims priority esc L t =
       Inr (if list_all isspace (take (nat cd) t) then []
            else [if esc then escape md (take (nat cd) t) True False else take (nat cd) t],
            drop (nat cd) t)" by blast
    let ?out = "if list_all isspace (take (nat cd) t) then []
            else [if esc then escape md (take (nat cd) t) True False else take (nat cd) t]"
    from cd True have "length (drop (nat cd) t) < length t" by simp
    from less [OF this, of "pages @ ?out"]
    obtain segs where segs: "concat segs = drop (nat cd) t"
      "pagify_loop md delims priority esc L (pages @ ?out) (drop (nat cd) t) =
       Some (Inr ((pages @ ?out) @ map (\<lambda>s. if esc then escape md s True False else s)
                             (filter (\<lambda>s. \<not> list_all isspace s) segs)))" by blast
    have "pagify_loop md delims priority esc L pages t =
        pagify_loop md delims priority esc L (pages @ ?out) (drop (nat cd) t)"
      using True it by (rule pagify_loop_step)
    with segs have "concat (take (nat cd) t # segs) = t \<and>
      pagify_loop md delims priority esc L pages t =
       Some (Inr (pages @ map (\<lambda>s. if esc then escape md s True False else s)
                             (filter (\<lambda>s. \<not> list_all isspace s) (take (nat cd) t # segs))))"
      by simp
    then show ?thesis by blast
  qed
qed

text \<open>
  C4, as the code has it. When the budget \<open>page_length - shorten_by\<close> is at least 1 and
  there is at least one delimiter (or \<open>priority\<close> is set), enumerating \<open>pagify\<close> raises
  nothing and ends with finitely many pages, for every text and either setting of
  \<open>escape_mass_mentions\<close>; and every pass through the loop leaves a strictly shorter text.
\<close>

theorem pagify_terminates:
  assumes "1 \<le> page_length - shorten_by" and "delims \<noteq> [] \<or> priority"
  shows "(\<exists>pages. pagify md text delims priority esc shorten_by page_length = Some (Inr pages))
    \<and> (page_length - shorten_by < int (length in_text) \<longrightarrow>
         (\<exists>out rest. pagify_iter md delims priority esc (page_length - shorten_by) in_text
                        = Inr (out, rest)
                      \<and> length rest < length in_text))"
proof
  from pagify_loop_segments [OF assms, of "text" md esc "[]"]
  show "\<exists>pages. pagify md text delims priority esc shorten_by page_length = Some (Inr pages)"
    unfolding pagify_def by blast
next
  show "page_length - shorten_by < int (length in_text) \<longrightarrow>
         (\<exists>out rest. pagify_iter md delims priority esc (page_length - shorten_by) in_text
                        = Inr (out, rest)
                      \<and> length rest < length in_text)"
  proof
    assume gt: "page_length - shorten_by < int (length in_text)"
    from pagify_iter_progress [OF assms(1) gt assms(2), of md esc]
    obtain cd where cd: "1 \<le> cd" "cd \<le> page_length - shorten_by"
      and it: "pagify_iter md delims priority esc (page_length - shorten_by) in_text =
       Inr (if list_all isspace (take (nat cd) in_text) then []
            else [if esc then escape md (take (nat cd) in_text) True False
                  else take (nat cd) in_text],
            drop (nat cd) in_text)" by blast
    from cd gt have "length (drop (nat cd) in_text) < length in_text" by simp
    with it show "\<exists>out rest. pagify_iter md delims priority esc (page_length - shorten_by) in_text
                        = Inr (out, rest) \<and> length rest < length in_text"
      by blast
  qed
qed

theorem pagify_terminates_witness:
  "1 \<le> (13::int) - 8 \<and> [[10::nat]] \<noteq> []
   \<and> (13::int) - 8 < int (length (str_of ''@everyone''))
   \<and> (\<exists>pages. pagify id (str_of ''@everyone'') [[10]] False True 8 13 = Some (Inr pages))
   \<and> (\<exists>out rest. pagify_iter id [[10]] False True (13 - 8) (str_of ''@everyone'')
                        = Inr (out, rest)
                    \<and> length rest < length (str_of ''@everyone''))"
proof -
  have h1: "1 \<le> (13::int) - 8" by simp
  have h2: "[[10::nat]] \<noteq> [] \<or> False" by simp
  have h3: "(13::int) - 8 < int (length (str_of ''@everyone''))" by (simp add: str_of_def)
  from pagify_terminates [OF h1 h2, of id "str_of ''@everyone''" True "str_of ''@everyone''"]
    h1 h2 h3 show ?thesis by blast
qed

lemma stuck_iter: "pagify_iter id [[10]] False True 0 [97] = Inr ([], [97])"
  by (simp add: py_defs)

text \<open>
  C4, as stated, has \<open>pagify\<close> end on every text for every setting. With
  \<open>page_length = shorten_by\<close> the budget is 0: the working limit is 0, the slice
  \<open>in_text[:0]\<close> is empty, \<open>in_text[0:]\<close> is the whole text again, and the loop never
  ends on a non-empty text.
\<close>

theorem pagify_zero_budget_counterexample:
  "pagify id (str_of ''a'') [[10]] False True 8 8 = None"
proof (rule ccontr)
  assume "pagify id (str_of ''a'') [[10]] False True 8 8 \<noteq> None"
  then obtain y where y: "pagify_loop id [[10]] False True 0 [] [97] = Some y"
    by (auto simp: pagify_def str_of_def)
  have "\<not> (id = (id :: pystr \<Rightarrow> pystr) \<and> [[10::nat]] = [[10]] \<and> \<not> False \<and> True \<and> (0::int) = 0
           \<and> ([] :: pystr list) = [] \<and> [97::nat] = [97])"
  proof (rule pagify_loop.raw_induct
          [where P = "\<lambda>md delims priority esc L pages t y.
                        \<not> (md = id \<and> delims = [[10]] \<and> \<not> priority \<and> esc \<and> L = 0
                           \<and> pages = [] \<and> t = [97])", OF _ y])
    fix f :: "(pystr \<Rightarrow> pystr) \<Rightarrow> pystr list \<Rightarrow> bool \<Rightarrow> bool \<Rightarrow> int \<Rightarrow> pystr list \<Rightarrow> pystr
                \<Rightarrow> (error + pystr list) option"
      and md delims priority esc L pages t r
    assume ih: "\<And>md delims priority esc L pages t r.
        f md delims priority esc L pages t = Some r \<Longrightarrow>
        \<not> (md = id \<and> delims = [[10]] \<and> \<not> priority \<and> esc \<and> L = 0 \<and> pages = [] \<and> t = [97])"
    assume body: "(if L < int (length t)
           then case pagify_iter md delims priority esc L t of
                  Inl e \<Rightarrow> Some (Inl e)
                | Inr (out, in_text') \<Rightarrow> f md delims priority esc L (pages @ out) in_text'
           else Some (Inr (pages @
                  (if 0 < length (strip t)
                   then [if esc then escape md t True False else t]
                   else [])))) = Some r"
    show "\<not> (md = id \<and> delims = [[10]] \<and> \<not> priority \<and> esc \<and> L = 0 \<and> pages = [] \<and> t = [97])"
    proof
      assume a: "md = id \<and> delims = [[10]] \<and> \<not> priority \<and> esc \<and> L = 0 \<and> pages = [] \<and> t = [97]"
      with body have "f id [[10]] False True 0 [] [97] = Some r"
        by (simp add: stuck_iter)
      from ih [OF this] show False by simp
    qed
  qed
  then show False by simp
qed

lemma pagify_iter_cut:
  assumes "1 \<le> L" "L < int (length t)" "delims \<noteq> [] \<or> priority"
  shows "\<exists>cd. closest_delim delims priority t (this_page_len t esc L) = Inr cd
     \<and> slice_to t cd @ slice_from t cd = t
     \<and> length (slice_from t cd) < length t
     \<and> pagify_iter md delims priority esc L t =
       Inr (if list_all isspace (slice_to t cd) then []
            else [if esc then escape md (slice_to t cd) True False else slice_to t cd],
            slice_from t cd)"
proof -
  let ?l = "this_page_len t esc L"
  from this_page_len_range [OF assms(1)] have l: "1 \<le> ?l" "?l \<le> L" by simp_all
  with assms(2) have "?l \<le> int (length t)" by simp
  from closest_delim_range [OF l(1) this assms(3)]
  obtain cd where cd: "closest_delim delims priority t ?l = Inr cd" "1 \<le> cd" "cd \<le> ?l"
    by blast
  with l assms(2) have r: "1 \<le> cd" "cd < int (length t)" by simp_all
  then have sl: "slice_to t cd = take (nat cd) t" "slice_from t cd = drop (nat cd) t"
    by (simp_all add: slice_to_def slice_from_def adjust_end_def adjust_start_def)
  have a: "slice_to t cd @ slice_from t cd = t" by (simp add: sl)
  have b: "length (slice_from t cd) < length t" using r by (simp add: sl)
  have "pagify_iter md delims priority esc L t =
       Inr (if list_all isspace (slice_to t cd) then []
            else [if esc then escape md (slice_to t cd) True False else slice_to t cd],
            slice_from t cd)"
    by (simp add: pagify_iter_def cd(1) strip_Nil_iff escape_is_spec all_space_escape_spec)
  with cd(1) a b show ?thesis by blast
qed

lemma pagify_loop_slices:
  assumes "1 \<le> L" "delims \<noteq> [] \<or> priority"
  shows "\<exists>segs. loop_slices delims priority esc L t segs \<and> concat segs = t \<and>
     pagify_loop md delims priority esc L pages t =
       Some (Inr (pages @ map (\<lambda>s. if esc then escape md s True False else s)
                             (filter (\<lambda>s. \<not> list_all isspace s) segs)))"
proof (induction "length t" arbitrary: t pages rule: less_induct)
  case less
  show ?case
  proof (cases "L < int (length t)")
    case False
    then have le: "int (length t) \<le> L" by simp
    from pagify_loop_short [OF le, of md delims priority esc pages] le
    have "loop_slices delims priority esc L t [t] \<and> concat [t] = t \<and>
      pagify_loop md delims priority esc L pages t =
       Some (Inr (pages @ map (\<lambda>s. if esc then escape md s True False else s)
                             (filter (\<lambda>s. \<not> list_all isspace s) [t])))"
      by simp
    then show ?thesis by blast
  next
    case True
    from pagify_iter_cut [OF assms(1) True assms(2), of esc md]
    obtain cd where cd: "closest_delim delims priority t (this_page_len t esc L) = Inr cd"
      and cat: "slice_to t cd @ slice_from t cd = t"
      and shorter: "length (slice_from t cd) < length t"
      and it: "pagify_iter md delims priority esc L t =
       Inr (if list_all isspace (slice_to t cd) then []
            else [if esc then escape md (slice_to t cd) True False else slice_to t cd],
            slice_from t cd)" by blast
    let ?out = "if list_all isspace (slice_to t cd) then []
            else [if esc then escape md (slice_to t cd) True False else slice_to t cd]"
    from less [OF shorter, of "pages @ ?out"]
    obtain segs where segs: "loop_slices delims priority esc L (slice_from t cd) segs"
      "concat segs = slice_from t cd"
      "pagify_loop md delims priority esc L (pages @ ?out) (slice_from t cd) =
       Some (Inr ((pages @ ?out) @ map (\<lambda>s. if esc then escape md s True False else s)
                             (filter (\<lambda>s. \<not> list_all isspace s) segs)))" by blast
    from segs(1) obtain s' ss where ne: "segs = s' # ss" by (cases segs) auto
    have ls: "loop_slices delims priority esc L t (slice_to t cd # segs)"
      using True cd segs(1) unfolding ne by simp
    have "pagify_loop md delims priority esc L pages t =
        pagify_loop md delims priority esc L (pages @ ?out) (slice_from t cd)"
      using True it by (rule pagify_loop_step)
    with segs cat have "concat (slice_to t cd # segs) = t \<and>
      pagify_loop md delims priority esc L pages t =
       Some (Inr (pages @ map (\<lambda>s. if esc then escape md s True False else s)
                             (filter (\<lambda>s. \<not> list_all isspace s) (slice_to t cd # segs))))"
      by simp
    with ls show ?thesis by blast
  qed
qed

lemma loop_slices_unique:
  "loop_slices delims priority esc L t segs \<Longrightarrow> loop_slices delims priority esc L t segs'
   \<Longrightarrow> segs = segs'"
proof (induction delims priority esc L t segs arbitrary: segs' rule: loop_slices.induct)
  case (1 delims priority esc L t)
  then show ?case by simp
next
  case (2 delims priority esc L t s)
  show ?case
  proof (cases segs')
    case Nil
    with 2 show ?thesis by simp
  next
    case (Cons a as)
    with 2 show ?thesis by (cases as) auto
  qed
next
  case (3 delims priority esc L t s s' ss)
  show ?case
  proof (cases segs')
    case Nil
    with 3 show ?thesis by simp
  next
    case (Cons a as)
    show ?thesis
    proof (cases as)
      case Nil
      with Cons 3 show ?thesis by simp
    next
      case c2: (Cons b bs)
      from 3(2) obtain cd where cd: "closest_delim delims priority t (this_page_len t esc L) = Inr cd"
        "s = slice_to t cd" "loop_slices delims priority esc L (slice_from t cd) (s' # ss)"
        by (auto split: sum.splits)
      from 3(3) cd(1) have a: "a = slice_to t cd"
        and rest: "loop_slices delims priority esc L (slice_from t cd) (b # bs)"
        unfolding Cons c2 by auto
      have "s' # ss = b # bs"
        using cd(1) cd(3) rest by (rule 3(1))
      with a cd(2) show ?thesis unfolding Cons c2 by simp
    qed
  qed
qed

text \<open>
  C1, as the code has it. With the default settings, let the segments of a text be the
  slices \<open>in_text[:closest_delim]\<close> the loop cuts, in order, followed by what remains
  after the loop (\<open>loop_slices\<close>; they are unique, \<open>loop_slices_unique\<close>). The segments
  concatenate to the text, nothing is trimmed and no delimiter is consumed; and the
  pages are, in order, exactly the mass-mention-escaped segments that are not
  whitespace-only. So undoing the insertions of each page and concatenating gives the text
  with only its whitespace-only segments removed, and the text itself when no segment is
  whitespace-only.
\<close>

theorem pagify_default_segments:
  "\<exists>segs. loop_slices [[10]] False True (2000 - 8) text segs \<and> concat segs = text \<and>
     pagify md text [[10]] False True 8 2000 =
       Some (Inr (map (\<lambda>s. escape md s True False)
                      (filter (\<lambda>s. \<not> list_all isspace s) segs)))"
proof -
  have "(1::int) \<le> 2000 - 8" "[[10::nat]] \<noteq> [] \<or> False" by simp_all
  from pagify_loop_slices [OF this, of True "text" md "[]"]
  show ?thesis by (simp add: pagify_def)
qed

text \<open>
  C1, as stated, ends by having the concatenation of all pages reconstruct the original
  text. The text of one space yields no page at all, and the concatenation of no pages
  is not that text.
\<close>

theorem pagify_blank_text_counterexample:
  "pagify id [32] [[10]] False True 8 2000 = Some (Inr [])
   \<and> concat ([] :: pystr list) \<noteq> [32]"
  by (simp add: pagify_def pagify_loop_short isspace_def)

section \<open>Selection of the break point\<close>

lemma find_rev_upt_Some:
  "find P (rev [a ..< b]) = Some i \<Longrightarrow>
     a \<le> i \<and> i < b \<and> P i \<and> (\<forall>j. a \<le> j \<and> j < b \<and> P j \<longrightarrow> j \<le> i)"
proof (induction b)
  case 0
  then show ?case by simp
next
  case (Suc b)
  show ?case
  proof (cases "a \<le> b")
    case False
    with Suc.prems show ?thesis by simp
  next
    case True
    show ?thesis
    proof (cases "P b")
      case pb: True
      with True Suc.prems have "i = b" by simp
      with pb True show ?thesis by auto
    next
      case False
      with True Suc.prems have "find P (rev [a ..< b]) = Some i" by simp
      from Suc.IH [OF this] False show ?thesis by (auto simp: less_Suc_eq)
    qed
  qed
qed

lemma set_occurrences:
  "set (occurrences s limit d) = {i. 1 \<le> i \<and> int i + int (length d) \<le> limit \<and> occurs_at s d i}"
  by (auto simp: occurrences_def)

lemma rfind_last:
  assumes "0 \<le> limit" "limit \<le> int (length s)"
  shows "rfind s d 1 limit =
     (if occurrences s limit d = [] then - 1 else int (Max (set (occurrences s limit d))))"
proof -
  let ?m = "int (length d)"
  have adj: "adjust_start 1 (length s) = 1" "adjust_end limit (length s) = limit"
    using assms by (simp_all add: adjust_start_def adjust_end_def)
  show ?thesis
  proof (cases "limit - 1 < ?m")
    case True
    then have "set (occurrences s limit d) = {}" unfolding set_occurrences by auto
    with True adj show ?thesis by (simp add: rfind_def)
  next
    case False
    let ?f = "find (occurs_at s d) (rev [nat 1 ..< nat (limit - ?m) + 1])"
    have r: "rfind s d 1 limit = (case ?f of None \<Rightarrow> - 1 | Some i \<Rightarrow> int i)"
      using False adj by (simp add: rfind_def)
    show ?thesis
    proof (cases ?f)
      case None
      then have "\<forall>i. 1 \<le> i \<and> i < nat (limit - ?m) + 1 \<longrightarrow> \<not> occurs_at s d i"
        by (auto simp: find_None_iff)
      then have "set (occurrences s limit d) = {}"
        unfolding set_occurrences using False by auto
      with r None show ?thesis by simp
    next
      case (Some i)
      from find_rev_upt_Some [OF Some]
      have i: "1 \<le> i" "i < nat (limit - ?m) + 1" "occurs_at s d i"
        and mx: "\<And>j. 1 \<le> j \<Longrightarrow> j < nat (limit - ?m) + 1 \<Longrightarrow> occurs_at s d j \<Longrightarrow> j \<le> i"
        by auto
      from i False have mem: "i \<in> set (occurrences s limit d)"
        unfolding set_occurrences by auto
      have "Max (set (occurrences s limit d)) = i"
      proof (rule Max_eqI)
        show "finite (set (occurrences s limit d))" by simp
        show "i \<in> set (occurrences s limit d)" by (rule mem)
        fix j assume "j \<in> set (occurrences s limit d)"
        then have "1 \<le> j" "int j + ?m \<le> limit" "occurs_at s d j"
          unfolding set_occurrences by auto
        then show "j \<le> i" using mx [of j] by simp
      qed
      with mem r Some show ?thesis by auto
    qed
  qed
qed

lemma find_map: "find P (map f xs) = map_option f (find (\<lambda>x. P (f x)) xs)"
  by (induction xs) simp_all

lemma occurrences_pos: "i \<in> set (occurrences s limit d) \<Longrightarrow> 1 \<le> i"
  by (simp add: set_occurrences)

lemma Max_occurrences_pos:
  "occurrences s limit d \<noteq> [] \<Longrightarrow> 1 \<le> Max (set (occurrences s limit d))"
proof -
  assume "occurrences s limit d \<noteq> []"
  then have "Max (set (occurrences s limit d)) \<in> set (occurrences s limit d)"
    by (intro Max_in) simp_all
  then show ?thesis by (rule occurrences_pos)
qed

lemma py_max_Max:
  assumes "xs \<noteq> []"
  shows "py_max xs = Inr (Max (set xs))"
proof (cases xs)
  case Nil
  with assms show ?thesis by simp
next
  case (Cons a list)
  then show ?thesis using Max.set_eq_fold [of a list] by simp
qed

lemma closest_delim_selection:
  assumes "0 \<le> limit" "limit \<le> int (length s)" "delims \<noteq> [] \<or> priority"
  shows "closest_delim delims priority s limit = Inr (break_spec delims priority s limit)"
proof -
  let ?occ = "occurrences s limit"
  let ?f = "\<lambda>d. if ?occ d = [] then - 1 else int (Max (set (?occ d)))"
  have cds: "map (\<lambda>d. rfind s d 1 limit) delims = map ?f delims"
    using rfind_last [OF assms(1,2)] by simp
  have fpos: "(0 < ?f d) = (?occ d \<noteq> [])" for d
    using Max_occurrences_pos [of s limit d] by auto
  show ?thesis
  proof (cases priority)
    case True
    have "find (\<lambda>x. 0 < x) (map ?f delims) = map_option ?f (find (\<lambda>d. ?occ d \<noteq> []) delims)"
      by (simp add: find_map fpos)
    moreover have "find (\<lambda>d. ?occ d \<noteq> []) delims = Some d \<Longrightarrow> ?occ d \<noteq> []" for d
      by (auto dest: find_SomeD)
    ultimately show ?thesis
      using True Max_occurrences_pos [of s limit]
      by (cases "find (\<lambda>d. ?occ d \<noteq> []) delims")
         (auto simp: closest_delim_def cds break_spec_def)
  next
    case False
    with assms(3) obtain d ds where d: "delims = d # ds" by (cases delims) auto
    define A where "A = concat (map ?occ delims)"
    define mm where "mm = Max (?f ` set delims)"
    have "py_max (map ?f delims) = Inr (Max (set (map ?f delims)))"
      by (rule py_max_Max) (simp add: d)
    then have mx: "py_max (map ?f delims) = Inr mm"
      unfolding mm_def by (simp only: set_map)
    have fin: "finite (?f ` set delims)" by simp
    have cdv: "closest_delim delims priority s limit = Inr (if mm \<noteq> - 1 then mm else limit)"
      using False by (simp add: closest_delim_def cds mx)
    have bs: "break_spec delims priority s limit = (if A = [] then limit else int (Max (set A)))"
      using False by (simp add: break_spec_def A_def)
    show ?thesis
    proof (cases "A = []")
      case True
      then have "\<forall>d \<in> set delims. ?occ d = []" by (simp add: A_def)
      then have "?f ` set delims = {- 1}" unfolding d by auto
      then have "mm = - 1" unfolding mm_def by simp
      with True cdv bs show ?thesis by simp
    next
      case ne: False
      let ?M = "Max (set A)"
      have "?M \<in> set A" using ne by (intro Max_in) simp_all
      then obtain d0 where d0: "d0 \<in> set delims" "?M \<in> set (?occ d0)" by (auto simp: A_def)
      have le: "j \<le> ?M" if "j \<in> set (?occ d')" "d' \<in> set delims" for j d'
        using that by (intro Max_ge) (auto simp: A_def)
      have mxd: "Max (set (?occ d0)) = ?M"
        by (rule Max_eqI) (use d0 le in auto)
      from d0(2) have "?occ d0 \<noteq> []" by auto
      then have "?f d0 = int (Max (set (?occ d0)))" by simp
      then have fd0: "?f d0 = int ?M" by (simp only: mxd)
      have "?f d0 \<in> ?f ` set delims" using d0(1) by (rule imageI)
      then have in_img: "int ?M \<in> ?f ` set delims" by (simp only: fd0)
      have "mm = int ?M"
        unfolding mm_def
      proof (rule Max_eqI)
        show "finite (?f ` set delims)" by (rule fin)
        show "int ?M \<in> ?f ` set delims" by (rule in_img)
        fix y assume "y \<in> ?f ` set delims"
        then obtain d' where d': "d' \<in> set delims" "y = ?f d'" by auto
        show "y \<le> int ?M"
        proof (cases "?occ d' = []")
          case True
          with d' show ?thesis by simp
        next
          case False
          then have "Max (set (?occ d')) \<in> set (?occ d')" by (intro Max_in) simp_all
          from le [OF this d'(1)] False d' show ?thesis by simp
        qed
      qed
      moreover have "1 \<le> ?M" using d0(2) by (rule occurrences_pos)
      ultimately show ?thesis using ne cdv bs by simp
    qed
  qed
qed

text \<open>
  C3. The claim describes \<open>break_spec\<close>, and by \<open>closest_delim_selection\<close> the code
  computes it whenever there is a delimiter or \<open>priority\<close> is set. The claim also has the
  break point be the working limit itself when no delimiter occurs in range. With
  \<open>priority=False\<close> and no delimiter at all, \<open>max\<close> is applied to an empty sequence and
  raises \<open>ValueError\<close>; with \<open>priority=True\<close>, where \<open>next\<close> has the default \<open>-1\<close>, the
  same text is cut at the working limit.
\<close>

theorem pagify_no_delims:
  "pagify id (str_of ''ab'') [] False True 8 9 = Some (Inl ValueError)
   \<and> pagify id (str_of ''ab'') [] True True 8 9 = Some (Inr [str_of ''a'', str_of ''b''])"
proof -
  have 1: "pagify_iter id [] False True 1 (str_of ''ab'') = Inl ValueError"
    by (simp add: py_defs)
  have 2: "pagify_iter id [] True True 1 (str_of ''ab'') = Inr ([str_of ''a''], str_of ''b'')"
    by (simp add: py_defs)
  have a: "pagify_loop id [] False True 1 [] (str_of ''ab'') = Some (Inl ValueError)"
    by (subst pagify_loop.simps) (simp add: 1, simp add: str_of_def)
  have "pagify_loop id [] True True 1 [] (str_of ''ab'') = pagify_loop id [] True True 1 [str_of ''a''] (str_of ''b'')"
    by (subst pagify_loop.simps) (simp add: 2, simp add: str_of_def)
  also have "\<dots> = Some (Inr [str_of ''a'', str_of ''b''])"
    by (simp add: pagify_loop_short str_of_def escape_is_spec isspace_def)
  finally show ?thesis using a by (simp add: pagify_def)
qed

section \<open>Pages and mass mentions\<close>

lemma length_concat_replicate: "length (concat (replicate n xs)) = n * length xs"
  by (induction n) simp_all

lemma escape_spec_replicate_here:
  "escape_spec (concat (replicate n at_here)) = concat (replicate n here_esc)"
  by (induction n) (simp_all add: escape_spec_here)

lemma count_occ_replicate:
  "sub \<noteq> [] \<Longrightarrow> hd sub \<noteq> a \<Longrightarrow> count_occ sub (replicate n a @ s) = count_occ sub s"
  by (induction n) (cases sub; simp)+

lemma escape_spec_replicate: "a \<noteq> 64 \<Longrightarrow> escape_spec (replicate n a @ s) = replicate n a @ escape_spec s"
  by (induction n) simp_all

lemma occurs_at_single: "occurs_at s [c] i \<Longrightarrow> c \<in> set s"
proof -
  assume "occurs_at s [c] i"
  then have "c \<in> set (take 1 (drop i s))" by (simp add: occurs_at_def)
  then show ?thesis by (blast dest: in_set_takeD in_set_dropD)
qed

lemma rfind_absent: "c \<notin> set s \<Longrightarrow> rfind s [c] b e = - 1"
proof -
  assume a: "c \<notin> set s"
  have "find (occurs_at s [c]) xs = None" for xs
    using a by (auto simp: find_None_iff dest: occurs_at_single)
  then show ?thesis by (simp add: rfind_def Let_def)
qed

text \<open>
  C2. The claim is that every page, the last one included, has at most
  \<open>page_length - shorten_by\<close> characters. Inside the loop the working limit is lowered by
  the number of mentions that escaping will lengthen; the page yielded after the loop
  is escaped without any such allowance. With the default settings the 1990 characters
  of 398 copies of \<open>@here\<close> are within the budget of 1992, and come out as one page of
  2388 characters.
\<close>

theorem pagify_final_page_too_long:
  "pagify id (concat (replicate 398 at_here)) [[10]] False True 8 2000 =
     Some (Inr [concat (replicate 398 here_esc)])
   \<and> length (concat (replicate 398 here_esc)) = 2388"
proof -
  let ?t = "concat (replicate 398 at_here)"
  have len: "int (length ?t) \<le> 2000 - 8"
    by (simp add: length_concat_replicate at_here_def str_of_def)
  have e: "Suc 397 = (398::nat)" by simp
  have "replicate 398 at_here = at_here # replicate 397 at_here"
    unfolding e [symmetric] by (rule replicate_Suc)
  then have "?t = at_here @ concat (replicate 397 at_here)" by simp
  then have ns: "\<not> list_all isspace ?t"
    by (simp add: at_here_def str_of_def isspace_def)
  have "pagify_loop id [[10]] False True (2000 - 8) [] ?t = Some (Inr [escape id ?t True False])"
    using pagify_loop_short [OF len, of id "[[10]]" False True "[]"] ns by simp
  then show ?thesis
    by (simp add: pagify_def escape_is_spec escape_spec_replicate_here length_concat_replicate
        here_esc_def str_of_def)
qed

text \<open>
  C10. Escaping is applied to each page after slicing, so a hard cut inside a mention
  leaves it unescaped on both sides. With the default settings, 1988 letters \<open>a\<close>
  followed by \<open>@everyone\<close> are cut after \<open>@eve\<close>: the two pages together still contain
  \<open>@everyone\<close>, and no U+200B.
\<close>

theorem pagify_split_mention:
  "pagify id (replicate 1988 97 @ at_everyone) [[10]] False True 8 2000 =
     Some (Inr [replicate 1988 97 @ str_of ''@eve'', str_of ''ryone''])
   \<and> sublist at_everyone (concat [replicate 1988 97 @ str_of ''@eve'', str_of ''ryone''])
   \<and> zwsp \<notin> set (concat [replicate 1988 97 @ str_of ''@eve'', str_of ''ryone''])"
proof -
  let ?t = "replicate 1988 97 @ at_everyone"
  have len: "length ?t = 1997" by (simp add: at_everyone_def str_of_def)
  have st: "slice_to ?t 1992 = replicate 1988 97 @ str_of ''@eve''"
    by (simp add: slice_to_def adjust_end_def at_everyone_def str_of_def)
  have sf: "slice_from ?t 1992 = str_of ''ryone''"
    by (simp add: slice_from_def adjust_start_def at_everyone_def str_of_def)
  have c1: "py_count ?t at_here 0 1992 = 0"
    unfolding py_count_def len
    by (simp add: adjust_end_def adjust_start_def count_occ_replicate at_here_def
        at_everyone_def str_of_def)
  have c2: "py_count ?t at_everyone 0 1992 = 0"
    unfolding py_count_def len
    by (simp add: adjust_end_def adjust_start_def count_occ_replicate at_everyone_def
        str_of_def)
  have rf: "rfind ?t [10] 1 1992 = - 1"
    by (rule rfind_absent) (simp add: at_everyone_def str_of_def)
  have cd: "closest_delim [[10]] False ?t 1992 = Inr 1992"
    by (simp add: closest_delim_def rf)
  have esc: "escape id (replicate 1988 97 @ str_of ''@eve'') True False
      = replicate 1988 97 @ str_of ''@eve''"
    by (simp add: escape_is_spec escape_spec_replicate) (simp add: str_of_def)
  have ns: "strip (replicate 1988 97 @ str_of ''@eve'') \<noteq> []"
    by (simp add: strip_Nil_iff str_of_def isspace_def)
  have it: "pagify_iter id [[10]] False True 1992 ?t
      = Inr ([replicate 1988 97 @ str_of ''@eve''], str_of ''ryone'')"
    using ns
    by (simp add: pagify_iter_def this_page_len_def c1 c2 cd st sf esc)
  have gt: "1992 < int (length ?t)" by (simp add: at_everyone_def str_of_def)
  have "pagify_loop id [[10]] False True 1992 [] ?t
      = pagify_loop id [[10]] False True 1992 ([] @ [replicate 1988 97 @ str_of ''@eve'']) (str_of ''ryone'')"
    using gt it by (rule pagify_loop_step)
  also have "\<dots> = Some (Inr [replicate 1988 97 @ str_of ''@eve'', str_of ''ryone''])"
    by (simp add: pagify_loop_short str_of_def escape_is_spec isspace_def)
  finally have p: "pagify id ?t [[10]] False True 8 2000
      = Some (Inr [replicate 1988 97 @ str_of ''@eve'', str_of ''ryone''])"
    by (simp add: pagify_def)
  have "concat [replicate 1988 97 @ str_of ''@eve'', str_of ''ryone''] = replicate 1988 97 @ at_everyone @ []"
    by (simp add: at_everyone_def str_of_def)
  then have s: "sublist at_everyone (concat [replicate 1988 97 @ str_of ''@eve'', str_of ''ryone''])"
    unfolding sublist_def by blast
  have z: "zwsp \<notin> set (concat [replicate 1988 97 @ str_of ''@eve'', str_of ''ryone''])"
    by (simp add: zwsp_def str_of_def)
  from p s z show ?thesis by blast
qed

section \<open>\<open>bordered\<close> on degenerate and brace-bearing columns\<close>

text \<open>
  C6. The claim is that a single column of height 0 gives a block of exactly two rows and
  never raises. The width of a column is computed first, as the \<open>max\<close> over the lengths
  of its lines, and \<open>max\<close> of no values raises \<open>ValueError\<close>: no block is produced.
\<close>

theorem bordered_empty_column: "bordered [[]] ascii_border = Inl ValueError"
  by (simp add: bordered_def)

text \<open>
  C5. The claim is that every line of the returned block has the same length. The cells
  hold the lines of the caller between the placeholders of the borders, and
  \<open>str.format\<close> is applied to the whole block, so \<open>{{\<close> in a line of the caller is read
  as an escaped brace and comes out one character shorter than the width the cell was
  padded to: the column \<open>["{{", "ab"]\<close> gives a row of 12 characters among rows of 13.
\<close>

lemma brace_rows:
  "bordered_rows [[str_of ''{{'', str_of ''ab'']] [11] =
     [[top_border 11], [str_of ''{VT}{{         {VT}''], [str_of ''{VT}ab         {VT}''],
      [bottom_border 11]]"
  by (simp add: bordered_defs)

theorem bordered_brace_line:
  "bordered [[str_of ''{{'', str_of ''ab'']] True =
     Inr (py_join [10] [str_of ''+-----------+'', str_of ''|{         |'',
                        str_of ''|ab         |'', str_of ''+-----------+''])
   \<and> length (str_of ''|{         |'') = 12 \<and> length (str_of ''|ab         |'') = 13"
  by (simp add: bordered_def brace_rows) (simp add: bordered_defs)

section \<open>The two columns \<open>["a", "bb"]\<close> and \<open>["ccc"]\<close>\<close>

lemma two_col_rows:
  "bordered_rows [[str_of ''a'', str_of ''bb''], [str_of ''ccc'']] [11, 12] =
     [[top_border 11, top_border 12],
      [str_of ''{VT}a          {VT}'', str_of ''{VT}ccc         {VT}''],
      [str_of ''{VT}bb         {VT}'', bottom_border 12],
      [bottom_border 11, replicate 14 32]]"
  by (simp add: bordered_defs)

lemma two_col_widths:
  "widths [[str_of ''a'', str_of ''bb''], [str_of ''ccc'']] = Inr [11, 12]"
  by (simp add: str_of_def)

text \<open>
  C7, as the code has it. With ASCII borders the block has four lines of 31 characters.
  The widths are 11 and 12, each column's own longest line plus 9, and the cell of
  \<open>"ccc"\<close> is padded with \<open>12 - 3\<close> spaces. The second column, the shorter one, shows its
  bottom border on the row of the first column's last line \<open>"bb"\<close>, one row before the
  bottom border of the first column, which is on the last row beside a filler of
  \<open>12 + 2\<close> spaces.
\<close>

theorem bordered_two_columns:
  "bordered [[str_of ''a'', str_of ''bb''], [str_of ''ccc'']] True =
     Inr (py_join [10]
       [str_of ''+-----------+    +------------+'',
        str_of ''|a          |    |ccc         |'',
        str_of ''|bb         |    +------------+'',
        str_of ''+-----------+                  ''])
   \<and> map length
       [str_of ''+-----------+    +------------+'',
        str_of ''|a          |    |ccc         |'',
        str_of ''|bb         |    +------------+'',
        str_of ''+-----------+                  ''] = [31, 31, 31, 31]
   \<and> widths [[str_of ''a'', str_of ''bb''], [str_of ''ccc'']] = Inr [11, 12]
   \<and> bordered_rows [[str_of ''a'', str_of ''bb''], [str_of ''ccc'']] [11, 12] =
     [[top_border 11, top_border 12],
      [str_of ''{VT}a'' @ replicate 10 32 @ str_of ''{VT}'',
       str_of ''{VT}ccc'' @ replicate (12 - 3) 32 @ str_of ''{VT}''],
      [str_of ''{VT}bb'' @ replicate 9 32 @ str_of ''{VT}'', bottom_border 12],
      [bottom_border 11, replicate (12 + 2) 32]]"
  apply (intro conjI)
     apply (simp add: bordered_def two_col_widths two_col_rows)
     apply (simp add: bordered_defs)
    apply (simp add: str_of_def)
   apply (rule two_col_widths)
  apply (simp add: two_col_rows)
  apply (simp add: str_of_def replicate_numeral)
  done

text \<open>
  C7, as stated, has the first column show a bottom border one row before the content
  of the second column ends. The content of the second column ends on row 1 and its
  bottom border is on row 2; the first column shows no bottom border on rows 0, 1 or 2,
  only on row 3. (Row 0 of the first column is its top border, built from \<open>{TL}\<close> and
  \<open>{TR}\<close>; with ASCII glyphs it prints like a bottom border.)
\<close>

theorem bordered_two_columns_counterexample:
  "bordered_rows [[str_of ''a'', str_of ''bb''], [str_of ''ccc'']] [11, 12] ! 1 ! 1
     = str_of ''{VT}ccc         {VT}''
   \<and> bordered_rows [[str_of ''a'', str_of ''bb''], [str_of ''ccc'']] [11, 12] ! 2 ! 1
     = bottom_border 12
   \<and> bordered_rows [[str_of ''a'', str_of ''bb''], [str_of ''ccc'']] [11, 12] ! 0 ! 0
     \<noteq> bottom_border 11
   \<and> bordered_rows [[str_of ''a'', str_of ''bb''], [str_of ''ccc'']] [11, 12] ! 1 ! 0
     \<noteq> bottom_border 11
   \<and> bordered_rows [[str_of ''a'', str_of ''bb''], [str_of ''ccc'']] [11, 12] ! 2 ! 0
     \<noteq> bottom_border 11
   \<and> bordered_rows [[str_of ''a'', str_of ''bb''], [str_of ''ccc'']] [11, 12] ! 3 ! 0
     = bottom_border 11"
  by (simp add: two_col_rows) (simp add: top_border_def bottom_border_def str_of_def)

end
